theory Spec2Isabelle
  imports Main "HOL-Library.Multiset" "HOL-Library.Char_ord" "HOL-Library.List_Lexorder"
begin

section \<open>Python values used by gitgraph.py\<close>

text \<open>
  Every \<open>assert\<close> of the source raises Python's AssertionError. The model keeps the site
  of the failed assertion, so that a theorem can say which check stopped a call:
  \<^item> \<open>Merge_parents_nonempty\<close>: \<^verbatim>\<open>assert len(parents) > 0\<close> in merge;
  \<^item> \<open>Merge_parents_matched\<close>: \<^verbatim>\<open>assert sorted(parents) == sorted(parents_merged)\<close> in merge
    (the specification calls this failure LayoutInconsistency);
  \<^item> \<open>Ascii_branch_longer\<close>: \<^verbatim>\<open>assert len(start) < len(finish)\<close> in ascii_branch;
  \<^item> \<open>Ascii_branch_same_labels\<close>: \<^verbatim>\<open>assert set(start) == set(finish)\<close> in ascii_branch;
  \<^item> \<open>Ascii_branch_same_key\<close>: \<^verbatim>\<open>assert k == k2\<close> in ascii_branch;
  \<^item> \<open>Ascii_branch_run_grows\<close>: \<^verbatim>\<open>assert c2 > c1\<close> in ascii_branch;
  \<^item> \<open>Ascii_merge_two_way\<close>: \<^verbatim>\<open>assert len(start) - 1 == len(finish)\<close> in ascii_merge
    (the specification calls this failure UnsupportedMergeArity);
  \<^item> \<open>Ascii_merge_dest\<close>: \<^verbatim>\<open>assert dest == start.index(merged)\<close> in ascii_merge.
  ValueError is raised by \<open>list.index\<close> on an absent element and by unpacking a
  sequence of the wrong length, IndexError by \<open>commits[0]\<close> on an empty list,
  UnboundLocalError by reading a local variable that no statement has assigned.
\<close>

datatype assertion =
    Merge_parents_nonempty
  | Merge_parents_matched
  | Ascii_branch_longer
  | Ascii_branch_same_labels
  | Ascii_branch_same_key
  | Ascii_branch_run_grows
  | Ascii_merge_two_way
  | Ascii_merge_dest

datatype error = AssertionError assertion | ValueError | IndexError | UnboundLocalError

abbreviation backslash :: char where
  "backslash \<equiv> CHR 0x5C"

text \<open>\<open>s * n\<close> on a string or a list: \<open>n\<close> copies, none when \<open>n\<close> is not positive.\<close>

definition py_mul :: "'a list \<Rightarrow> int \<Rightarrow> 'a list" where
  "py_mul s n = concat (replicate (nat n) s)"

text \<open>\<open>sep.join(xs)\<close>.\<close>

fun join :: "string \<Rightarrow> string list \<Rightarrow> string" where
  "join sep [] = []"
| "join sep [x] = x"
| "join sep (x # y # ys) = x @ sep @ join sep (y # ys)"

text \<open>\<open>s.rstrip()\<close>: the trailing whitespace characters (space, tab, line feed, vertical
  tab, form feed, carriage return) are removed.\<close>

definition is_whitespace :: "char \<Rightarrow> bool" where
  "is_whitespace c \<longleftrightarrow> c \<in> set [CHR '' '', CHR 0x09, CHR 0x0A, CHR 0x0B, CHR 0x0C, CHR 0x0D]"

definition rstrip :: "string \<Rightarrow> string" where
  "rstrip s = rev (dropWhile is_whitespace (rev s))"

text \<open>\<open>xs.index(x)\<close>: the position of the first element equal to \<open>x\<close>, ValueError when
  there is none.\<close>

fun list_index :: "'a list \<Rightarrow> 'a \<Rightarrow> error + nat" where
  "list_index [] x = Inl ValueError"
| "list_index (y # ys) x =
     (if y = x then Inr 0
      else (case list_index ys x of Inl e \<Rightarrow> Inl e | Inr i \<Rightarrow> Inr (Suc i)))"

text \<open>The keys of \<open>Counter(start) - Counter(finish)\<close>: Counter subtraction keeps the
  elements whose count stays positive, so the keys are the distinct elements of \<open>start\<close>
  that occur more often in \<open>start\<close> than in \<open>finish\<close>. Their order is the dictionary's;
  the source only unpacks a single key.\<close>

definition counter_sub_keys :: "'a list \<Rightarrow> 'a list \<Rightarrow> 'a list" where
  "counter_sub_keys start finish =
     filter (\<lambda>k. count_list finish k < count_list start k) (remdups start)"

text \<open>\<open>[(k, len(list(v))) for k, v in groupby(xs)]\<close>: the runs of equal neighbours with
  their lengths.\<close>

fun groupby_len :: "'a list \<Rightarrow> ('a \<times> int) list" where
  "groupby_len [] = []"
| "groupby_len (x # xs) =
     (case groupby_len xs of
        [] \<Rightarrow> [(x, 1)]
      | (k, c) # rest \<Rightarrow> if k = x then (k, c + 1) # rest else (x, 1) # (k, c) # rest)"

section \<open>merge and branch\<close>

text \<open>The loop of merge over \<open>columns\<close>; its state is \<open>(new, parents_merged, node_written)\<close>.\<close>

fun merge_loop :: "'a list \<Rightarrow> 'a \<Rightarrow> 'a list \<Rightarrow> 'a list \<times> 'a list \<times> bool \<Rightarrow> 'a list \<times> 'a list \<times> bool" where
  "merge_loop parents name [] st = st"
| "merge_loop parents name (col # columns) (new, parents_merged, node_written) =
     (if col \<in> set parents then
        (if col \<in> set parents_merged then
           merge_loop parents name columns (new @ [col], parents_merged, node_written)
         else if \<not> node_written then
           merge_loop parents name columns (new @ [name], parents_merged @ [col], True)
         else
           merge_loop parents name columns (new, parents_merged @ [col], node_written))
      else merge_loop parents name columns (new @ [col], parents_merged, node_written))"

definition merge :: "'a::linorder list \<Rightarrow> 'a list \<Rightarrow> 'a \<Rightarrow> error + 'a list" where
  "merge columns parents name =
     (if \<not> length parents > 0 then Inl (AssertionError Merge_parents_nonempty)
      else
        (case merge_loop parents name columns ([], [], False) of
           (new, parents_merged, node_written) \<Rightarrow>
             if sort parents = sort parents_merged then Inr new
             else Inl (AssertionError Merge_parents_matched)))"

fun branch_loop :: "'b list \<Rightarrow> 'a \<Rightarrow> 'a list \<Rightarrow> 'a list \<Rightarrow> 'a list" where
  "branch_loop children name [] new = new"
| "branch_loop children name (c # columns) new =
     (if c = name then branch_loop children name columns (new @ py_mul [name] (int (length children)))
      else branch_loop children name columns (new @ [c]))"

definition branch :: "'a list \<Rightarrow> 'b list \<Rightarrow> 'a \<Rightarrow> 'a list" where
  "branch columns children name = branch_loop children name columns []"

section \<open>The child map and its inverse\<close>

text \<open>
  A dictionary from a commit to the list of its children is an association list; the
  order of its pairs is the order in which \<open>iteritems\<close> visits them. \<open>reversed\<close> inverts
  it (the dictionary \<open>rev\<close> of the source is \<open>rv\<close> here), \<open>parents\<close> looks a node up in the
  inverse (no entry gives an empty collection).
\<close>

fun reversed_inner :: "'a \<Rightarrow> 'b list \<Rightarrow> ('b \<rightharpoonup> 'a list) \<Rightarrow> ('b \<rightharpoonup> 'a list)" where
  "reversed_inner parent [] rv = rv"
| "reversed_inner parent (child # children) rv =
     reversed_inner parent children
       (case rv child of
          Some ps \<Rightarrow> rv(child \<mapsto> ps @ [parent])
        | None \<Rightarrow> rv(child \<mapsto> [parent]))"

fun reversed_loop :: "('a \<times> 'b list) list \<Rightarrow> ('b \<rightharpoonup> 'a list) \<Rightarrow> ('b \<rightharpoonup> 'a list)" where
  "reversed_loop [] rv = rv"
| "reversed_loop ((parent, children) # d) rv = reversed_loop d (reversed_inner parent children rv)"

definition reversed :: "('a \<times> 'b list) list \<Rightarrow> ('b \<rightharpoonup> 'a list)" where
  "reversed d = reversed_loop d Map.empty"

definition parents :: "'b \<Rightarrow> ('a \<times> 'b list) list \<Rightarrow> 'a list" where
  "parents node children = (case reversed children node of None \<Rightarrow> [] | Some ps \<Rightarrow> ps)"

definition children_get :: "('a \<times> 'b list) list \<Rightarrow> 'a \<Rightarrow> 'b list" where
  "children_get children commit = (case map_of children commit of None \<Rightarrow> [] | Some cs \<Rightarrow> cs)"

section \<open>Connector art\<close>

text \<open>\<open>range(splits)\<close>.\<close>

definition py_range :: "int \<Rightarrow> int list" where
  "py_range n = map int [0..<nat n]"

text \<open>The loop of \<open>_ascii_split\<close>; \<open>break\<close> returns the lines collected so far.\<close>

fun ascii_split_loop :: "int \<Rightarrow> int list \<Rightarrow> string list \<Rightarrow> string list" where
  "ascii_split_loop splits [] new = new"
| "ascii_split_loop splits (i # is) new =
     (let new1 = new @ [py_mul ''| '' i @ ''|'' @ [backslash]]
      in if i = splits - 1 then new1
         else ascii_split_loop splits is (new1 @ [py_mul ''| '' (i + 1) @ [backslash]]))"

definition ascii_split :: "int \<Rightarrow> string list" where
  "ascii_split splits = ascii_split_loop splits (py_range splits) []"

text \<open>The loop of ascii_branch over \<open>enumerate(zip(start_groups, finish_groups))\<close>. The
  result holds the variables the code reads after the loop: \<open>(c1, c2)\<close> of the last pair
  visited (none when the loop body never ran) and \<open>(before, after)\<close>, which only the
  branch that ends in \<open>break\<close> assigns.\<close>

fun ascii_branch_loop ::
  "('a \<times> int) list \<Rightarrow> nat \<Rightarrow> (('a \<times> int) \<times> ('a \<times> int)) list \<Rightarrow> (int \<times> int) option
   \<Rightarrow> error + ((int \<times> int) option \<times> (int \<times> int) option)" where
  "ascii_branch_loop finish_groups i [] seen = Inr (seen, None)"
| "ascii_branch_loop finish_groups i (((k, c1), (k2, c2)) # rest) seen =
     (if k \<noteq> k2 then Inl (AssertionError Ascii_branch_same_key)
      else if c1 = c2 then ascii_branch_loop finish_groups (i + 1) rest (Some (c1, c2))
      else if \<not> c2 > c1 then Inl (AssertionError Ascii_branch_run_grows)
      else Inr (Some (c1, c2),
                Some (sum_list (map snd (take i finish_groups)) + c2 - c1 - 1,
                      sum_list (map snd (drop (i + 1) finish_groups)))))"

definition ascii_branch :: "'a list \<Rightarrow> 'a list \<Rightarrow> error + string list" where
  "ascii_branch start finish =
     (if \<not> length start < length finish then Inl (AssertionError Ascii_branch_longer)
      else if set start \<noteq> set finish then Inl (AssertionError Ascii_branch_same_labels)
      else
        (let start_groups = groupby_len start; finish_groups = groupby_len finish
         in case ascii_branch_loop finish_groups 0 (zip start_groups finish_groups) None of
              Inl e \<Rightarrow> Inl e
            | Inr (None, ba) \<Rightarrow> Inl UnboundLocalError
            | Inr (Some (c1, c2), ba) \<Rightarrow>
                (let split = ascii_split (c2 - c1)
                 in if split = [] then Inr []
                    else (case ba of
                            None \<Rightarrow> Inl UnboundLocalError
                          | Some (before, after) \<Rightarrow>
                              Inr (map (\<lambda>line. join '' ''
                                         (py_mul [''|''] before @ [line] @ py_mul [[backslash]] after))
                                       split)))))"

definition ascii_crossover :: "int \<Rightarrow> string list" where
  "ascii_crossover crosses =
     [''| '' @ py_mul ''| '' crosses @ '' '' @ [backslash],
      ''| '' @ py_mul ''|_'' crosses @ ''_/'',
      ''|/'' @ py_mul ''| '' crosses @ ''  '',
      ''| '' @ py_mul ''| '' crosses @ '' '']"

text \<open>ascii_merge returns at its first \<open>return\<close>; the statements after it are never run.\<close>

definition ascii_merge :: "'a list \<Rightarrow> 'a list \<Rightarrow> error + string list" where
  "ascii_merge start finish =
     (if int (length start) - 1 \<noteq> int (length finish) then Inl (AssertionError Ascii_merge_two_way)
      else
        (case counter_sub_keys start finish of
           [merged] \<Rightarrow>
             (case list_index finish merged of
                Inl e \<Rightarrow> Inl e
              | Inr dest \<Rightarrow>
                  (case list_index start merged of
                     Inl e \<Rightarrow> Inl e
                   | Inr dest' \<Rightarrow>
                       if dest \<noteq> dest' then Inl (AssertionError Ascii_merge_dest)
                       else
                         (case list_index (drop (dest + 1) start) merged of
                            Inl e \<Rightarrow> Inl e
                          | Inr j \<Rightarrow>
                              (let origin = int dest + int j + 1;
                                   after = int (length start) - origin - 1;
                                   cross = ascii_crossover (origin - int dest - 1);
                                   lines =
                                     [py_mul ''| '' (int dest) @ cross ! 0 @ py_mul ('' '' @ [backslash]) after,
                                      py_mul ''| '' (int dest) @ cross ! 1 @ py_mul '' /'' after,
                                      py_mul ''| '' (int dest) @ cross ! 2 @ py_mul ''/ '' after,
                                      py_mul ''| '' (int dest) @ cross ! 3 @ py_mul ''/ '' after]
                               in Inr (map rstrip lines)))))
         | _ \<Rightarrow> Inl ValueError))"

section \<open>Rows\<close>

text \<open>\<open>msg\<close> is None or a string; an empty string counts as no message.\<close>

definition format_line :: "string \<Rightarrow> string list \<Rightarrow> string option \<Rightarrow> string" where
  "format_line name columns msg =
     take 80 (join '' '' (map (\<lambda>x. if x = name then ''o'' else ''|'') columns) @ ''   '' @ name
              @ (case msg of None \<Rightarrow> [] | Some m \<Rightarrow> if m = [] then [] else '' '' @ m))"

text \<open>The loop of print_row that builds \<open>pre_merge\<close>; its state is
  \<open>(parents_merged, pre_merge)\<close>.\<close>

fun pre_merge_loop :: "string list \<Rightarrow> string list \<Rightarrow> string list \<times> string list \<Rightarrow> string list \<times> string list" where
  "pre_merge_loop ps [] st = st"
| "pre_merge_loop ps (c # columns) (parents_merged, pre_merge) =
     (if c \<in> set ps \<and> c \<notin> set parents_merged then
        pre_merge_loop ps columns (parents_merged @ [c], pre_merge @ [''to_merge''])
      else pre_merge_loop ps columns (parents_merged, pre_merge @ [c]))"

text \<open>
  print_row prints lines and returns the next rail sequence. The model threads the lines
  printed so far (\<open>out\<close>) and returns them with the result, so that the lines printed
  before an exception stay visible. \<open>columns\<close> is \<open>None\<close> for the first commit.
\<close>

definition print_row ::
  "string \<Rightarrow> (string \<times> string list) list \<Rightarrow> string list option \<Rightarrow> string option \<Rightarrow> string list
   \<Rightarrow> string list \<times> (error + string list)" where
  "print_row commit children columns msg out =
     (case columns of
        None \<Rightarrow> (out @ [format_line commit [commit] msg], Inr [commit])
      | Some columns \<Rightarrow>
          (case (if length (parents commit children) = 0 then Inr (columns @ [commit])
                 else merge columns (parents commit children) commit) of
             Inl e \<Rightarrow> (out, Inl e)
           | Inr new \<Rightarrow>
               (case (if length (parents commit children) > 1 then
                        ascii_merge
                          (snd (pre_merge_loop (parents commit children) columns ([], [])))
                          (map (\<lambda>c. if c \<in> set columns then c else ''to_merge'') new)
                      else Inr []) of
                  Inl e \<Rightarrow> (out, Inl e)
                | Inr art \<Rightarrow>
                    (let out1 = out @ art @ [format_line commit new msg];
                         newer = branch new (children_get children commit) commit
                     in if length (children_get children commit) > 1 then
                          (case ascii_branch new newer of
                             Inl e \<Rightarrow> (out1, Inl e)
                           | Inr art2 \<Rightarrow> (out1 @ art2, Inr newer))
                        else (out1, Inr newer)))))"

text \<open>The loop of print_lines over \<open>commits[1:]\<close>.\<close>

fun print_rows ::
  "string list \<Rightarrow> (string \<times> string list) list \<Rightarrow> (string \<rightharpoonup> string) \<Rightarrow> string list \<Rightarrow> string list
   \<Rightarrow> string list \<times> (error + string list)" where
  "print_rows [] children messages cols out = (out, Inr cols)"
| "print_rows (commit # commits) children messages cols out =
     (case print_row commit children (Some cols) (messages commit) out of
        (out', Inl e) \<Rightarrow> (out', Inl e)
      | (out', Inr cols') \<Rightarrow> print_rows commits children messages cols' out')"

text \<open>print_lines returns nothing; the model returns the lines printed and the value of
  \<open>cols\<close> when the loop ends.\<close>

definition print_lines ::
  "string list \<Rightarrow> (string \<times> string list) list \<Rightarrow> (string \<rightharpoonup> string) \<Rightarrow> string list
   \<Rightarrow> string list \<times> (error + string list)" where
  "print_lines commits children messages out =
     (case commits of
        [] \<Rightarrow> (out, Inl IndexError)
      | commit # rest \<Rightarrow>
          (case print_row commit children None (messages commit) out of
             (out', Inl e) \<Rightarrow> (out', Inl e)
           | (out', Inr cols) \<Rightarrow> print_rows rest children messages cols out'))"

section \<open>The per-commit transition in the words of the specification\<close>

text \<open>
  The specification describes the walk over the commits as: resolve the merge (a root
  appends its id as a new rail, any other commit goes through merge), format the row
  on the resulting rails, expand the commit's rail by its children. \<open>merge_resolution\<close>
  is the first step, \<open>merge_format_expand\<close> the whole transition (it gives the row and
  the next rails), and \<open>spec_render\<close> applies the transition to each commit of a list
  in order, collecting the rows. They are compared with print_row and print_lines below.
\<close>

definition merge_resolution :: "string \<Rightarrow> (string \<times> string list) list \<Rightarrow> string list \<Rightarrow> error + string list" where
  "merge_resolution commit children columns =
     (if parents commit children = [] then Inr (columns @ [commit])
      else merge columns (parents commit children) commit)"

definition merge_format_expand ::
  "string \<Rightarrow> (string \<times> string list) list \<Rightarrow> string list \<Rightarrow> string option \<Rightarrow> error + (string \<times> string list)" where
  "merge_format_expand commit children columns msg =
     (case merge_resolution commit children columns of
        Inl e \<Rightarrow> Inl e
      | Inr new \<Rightarrow> Inr (format_line commit new msg, branch new (children_get children commit) commit))"

fun spec_render ::
  "(string \<times> string list) list \<Rightarrow> (string \<rightharpoonup> string) \<Rightarrow> string list \<Rightarrow> string list
   \<Rightarrow> error + (string list \<times> string list)" where
  "spec_render children messages cols [] = Inr ([], cols)"
| "spec_render children messages cols (commit # commits) =
     (case merge_format_expand commit children cols (messages commit) of
        Inl e \<Rightarrow> Inl e
      | Inr (row, cols') \<Rightarrow>
          (case spec_render children messages cols' commits of
             Inl e \<Rightarrow> Inl e
           | Inr (rows, final) \<Rightarrow> Inr (row # rows, final)))"

section \<open>Auxiliary functions for the proofs\<close>

text \<open>
  Two functions that describe the loop of merge: \<open>consume S cols\<close> is \<open>cols\<close> without the
  leftmost occurrence of each element of \<open>S\<close>, and \<open>firsts S cols\<close> lists those leftmost
  occurrences in their order.
\<close>

fun consume :: "'a set \<Rightarrow> 'a list \<Rightarrow> 'a list" where
  "consume S [] = []"
| "consume S (c # cs) = (if c \<in> S then consume (S - {c}) cs else c # consume S cs)"

fun firsts :: "'a set \<Rightarrow> 'a list \<Rightarrow> 'a list" where
  "firsts S [] = []"
| "firsts S (c # cs) = (if c \<in> S then c # firsts (S - {c}) cs else firsts S cs)"

section \<open>Branch expansion\<close>

lemma concat_replicate_singleton: "concat (replicate n [x]) = replicate n x"
  by (induction n) simp_all

lemma py_mul_singleton: "py_mul [x] (int n) = replicate n x"
  by (simp add: py_mul_def concat_replicate_singleton)

lemma count_list_replicate_same: "count_list (replicate n x) x = n"
  by (induction n) simp_all

lemma branch_loop_append:
  "branch_loop children name columns new =
     new @ concat (map (\<lambda>c. if c = name then replicate (length children) name else [c]) columns)"
  by (induction columns arbitrary: new) (simp_all add: py_mul_singleton)

lemma branch_concat_map:
  "branch columns children name =
     concat (map (\<lambda>c. if c = name then replicate (length children) name else [c]) columns)"
  by (simp add: branch_def branch_loop_append)

lemma branch_filter_foreign:
  "filter (\<lambda>c. c \<noteq> name) (branch columns children name) = filter (\<lambda>c. c \<noteq> name) columns"
  by (induction columns) (simp_all add: branch_concat_map)

lemma branch_count_name:
  "count_list (branch columns children name) name = length children * count_list columns name"
  by (induction columns) (simp_all add: branch_concat_map count_list_replicate_same)

lemma branch_length:
  "length (branch columns children name) + count_list columns name =
     length columns + length children * count_list columns name"
  by (induction columns) (simp_all add: branch_concat_map)

text \<open>
  Claim C2. For every rail sequence \<open>columns\<close>, commit id \<open>name\<close> and child list of length
  \<open>N \<ge> 1\<close>, \<open>branch columns children name\<close> replaces every rail equal to \<open>name\<close> by \<open>N\<close>
  consecutive copies of \<open>name\<close> and leaves all other rails unchanged in relative order
  (the rails different from \<open>name\<close> are the same list before and after, and \<open>name\<close> occurs
  \<open>N\<close> times as often); when exactly one rail equals \<open>name\<close>, the resulting length is
  \<open>len(columns) - 1 + N\<close>.
\<close>

theorem branch_expands_name_rails:
  assumes "1 \<le> length children"
  shows "branch columns children name =
           concat (map (\<lambda>c. if c = name then replicate (length children) name else [c]) columns)
       \<and> filter (\<lambda>c. c \<noteq> name) (branch columns children name) = filter (\<lambda>c. c \<noteq> name) columns
       \<and> count_list (branch columns children name) name = length children * count_list columns name
       \<and> (count_list columns name = 1 \<longrightarrow>
            length (branch columns children name) = length columns - 1 + length children)"
proof -
  have "length (branch columns children name) = length columns - 1 + length children"
    if one: "count_list columns name = 1"
  proof -
    have "name \<in> set columns"
      using one by (metis count_list_0_iff zero_neq_one)
    then have "0 < length columns" by (cases columns) auto
    moreover have "length (branch columns children name) + 1 = length columns + length children"
      using branch_length [of columns children name] one by simp
    ultimately show ?thesis by arith
  qed
  then show ?thesis
    by (simp add: branch_concat_map [symmetric] branch_filter_foreign branch_count_name)
qed

theorem branch_expands_name_rails_witness:
  "branch [1, 2, 3 :: nat] [7, 8, 9 :: nat] 2 = [1, 2, 2, 2, 3]
   \<and> count_list [1, 2, 3 :: nat] 2 = 1
   \<and> length (branch [1, 2, 3 :: nat] [7, 8, 9 :: nat] 2) = 5"
  using branch_expands_name_rails [of "[7, 8, 9 :: nat]" "[1, 2, 3 :: nat]" 2]
  by (simp add: numeral_eq_Suc)

text \<open>
  Claim C8, as stated: for a tip commit (no children) \<open>branch columns [] name\<close> returns
  \<open>columns\<close> unchanged. The code extends \<open>new\<close> by \<open>[name] * 0\<close>, the empty list, for every
  rail equal to \<open>name\<close>: the tip's rail is removed by the expansion step itself.
\<close>

theorem branch_tip_counterexample:
  "branch [''A'', ''B''] ([] :: string list) ''A'' \<noteq> [''A'', ''B'']"
  by (simp add: branch_def py_mul_def)

text \<open>
  Claim C8, amended. For a tip commit \<open>branch columns [] name\<close> returns \<open>columns\<close> without
  the rails equal to \<open>name\<close>, every other rail in its place and order; the sequence is
  unchanged exactly when no rail bears \<open>name\<close>.
\<close>

theorem branch_tip_removes_rail:
  "branch columns [] name = filter (\<lambda>c. c \<noteq> name) columns
   \<and> (branch columns [] name = columns \<longleftrightarrow> name \<notin> set columns)"
proof -
  have eq: "branch columns [] name = filter (\<lambda>c. c \<noteq> name) columns"
    by (induction columns) (simp_all add: branch_concat_map)
  have "filter (\<lambda>c. c \<noteq> name) columns = columns \<longleftrightarrow> name \<notin> set columns"
    by (auto simp: filter_id_conv)
  then show ?thesis unfolding eq by simp
qed

section \<open>The split ladder\<close>

lemma ascii_split_loop_closed:
  "i < n \<Longrightarrow>
   ascii_split_loop (int n) (map int [i..<n]) new =
     new @ concat (map (\<lambda>j. [py_mul ''| '' (int j) @ ''|'' @ [backslash],
                              py_mul ''| '' (int j + 1) @ [backslash]]) [i..<n - 1])
         @ [py_mul ''| '' (int (n - 1)) @ ''|'' @ [backslash]]"
proof (induction "n - i" arbitrary: i new)
  case 0
  then show ?case by simp
next
  case (Suc d)
  have upt: "[i..<n] = i # [Suc i..<n]"
    using Suc.prems by (simp add: upt_conv_Cons)
  show ?case
  proof (cases "Suc i = n")
    case True
    then have "int i = int n - 1" "n - 1 = i" by auto
    then show ?thesis using True by (simp add: upt)
  next
    case False
    then have lt: "Suc i < n" using Suc.prems by simp
    have d: "d = n - Suc i" using Suc.hyps(2) by simp
    have ne: "int i \<noteq> int n - 1" using lt by simp
    have upt2: "[i..<n - Suc 0] = i # [Suc i..<n - Suc 0]"
      using lt by (simp add: upt_conv_Cons)
    show ?thesis
      using Suc.hyps(1) [OF d lt] ne
      by (simp add: upt upt2 Let_def)
  qed
qed

lemma length_concat_pairs: "length (concat (map (\<lambda>j. [f j, g j]) js)) = 2 * length js"
  by (induction js) simp_all

text \<open>
  Claim C10. For every \<open>k \<ge> 1\<close>, \<open>_ascii_split(k)\<close> returns exactly \<open>2k - 1\<close> lines, and its
  last line is \<open>k - 1\<close> repetitions of the straight rail and a space, followed by the
  branch-opening pair of a rail and a backslash.
\<close>

theorem ascii_split_line_count:
  assumes "1 \<le> k"
  shows "int (length (ascii_split k)) = 2 * k - 1
       \<and> last (ascii_split k) = py_mul ''| '' (k - 1) @ ''|'' @ [backslash]"
proof -
  define n where "n = nat k"
  have n: "k = int n" "0 < n"
    using assms by (simp_all add: n_def)
  have "ascii_split k = ascii_split_loop (int n) (map int [0..<n]) []"
    by (simp add: ascii_split_def py_range_def n)
  also have "\<dots> = concat (map (\<lambda>j. [py_mul ''| '' (int j) @ ''|'' @ [backslash],
                              py_mul ''| '' (int j + 1) @ [backslash]]) [0..<n - 1])
         @ [py_mul ''| '' (int (n - 1)) @ ''|'' @ [backslash]]"
    using ascii_split_loop_closed [OF n(2), of "[]"] by simp
  finally have eq: "ascii_split k = concat (map (\<lambda>j. [py_mul ''| '' (int j) @ ''|'' @ [backslash],
                              py_mul ''| '' (int j + 1) @ [backslash]]) [0..<n - 1])
         @ [py_mul ''| '' (int (n - 1)) @ ''|'' @ [backslash]]" .
  have k1: "int (n - 1) = k - 1" using n by simp
  have "int (length (ascii_split k)) = 2 * k - 1"
    unfolding eq using n by (simp add: length_concat_pairs)
  moreover have "last (ascii_split k) = py_mul ''| '' (k - 1) @ ''|'' @ [backslash]"
    unfolding eq k1 by simp
  ultimately show ?thesis by simp
qed

theorem ascii_split_line_count_witness:
  "(1::int) \<le> 3 \<and> length (ascii_split 3) = 5
   \<and> last (ascii_split 3) = ''| | |'' @ [backslash]"
  using ascii_split_line_count [of 3]
  by (simp add: py_mul_def numeral_eq_Suc)

section \<open>Merge resolution\<close>

lemma merge_loop_written:
  "merge_loop ps name cols (new, pm, True) =
     (new @ consume (set ps - set pm) cols, pm @ firsts (set ps - set pm) cols, True)"
proof (induction cols arbitrary: new pm)
  case Nil
  then show ?case by simp
next
  case (Cons col cols)
  have diff: "set ps - set (pm @ [col]) = set ps - set pm - {col}" by auto
  show ?case
    by (simp add: Cons.IH diff del: set_append)
qed

lemma merge_loop_fresh:
  "merge_loop ps name cols (new, [], False) =
     (if \<exists>c\<in>set cols. c \<in> set ps then
        (new @ takeWhile (\<lambda>c. c \<notin> set ps) cols
             @ name # consume (set ps) (dropWhile (\<lambda>c. c \<notin> set ps) cols),
         firsts (set ps) cols, True)
      else (new @ cols, [], False))"
proof (induction cols arbitrary: new)
  case Nil
  then show ?case by simp
next
  case (Cons col cols)
  show ?case
  proof (cases "col \<in> set ps")
    case True
    then show ?thesis by (simp add: merge_loop_written)
  next
    case False
    then show ?thesis by (simp add: Cons.IH)
  qed
qed

lemma firsts_set: "set (firsts S cols) = S \<inter> set cols"
  by (induction cols arbitrary: S) auto

lemma firsts_distinct: "distinct (firsts S cols)"
  by (induction cols arbitrary: S) (auto simp: firsts_set)

lemma consume_empty: "consume {} cols = cols"
  by (induction cols) simp_all

lemma consume_remove1: "p \<notin> S \<Longrightarrow> consume S (remove1 p cols) = consume (insert p S) cols"
proof (induction cols arbitrary: S)
  case Nil
  then show ?case by simp
next
  case (Cons c cols)
  show ?case
  proof (cases "c = p")
    case True
    with Cons.prems have "insert p S - {p} = S" by auto
    with True show ?thesis by simp
  next
    case False
    then have ins: "insert p S - {c} = insert p (S - {c})" by auto
    have "p \<notin> S - {c}" using Cons.prems by simp
    then show ?thesis using False Cons.IH Cons.prems by (simp add: ins)
  qed
qed

lemma fold_remove1_consume: "distinct ps \<Longrightarrow> fold remove1 ps cols = consume (set ps) cols"
  by (induction ps arbitrary: cols) (simp_all add: consume_empty consume_remove1)

lemma sort_eq_iff_mset: "sort xs = sort ys \<longleftrightarrow> mset xs = mset ys"
proof
  assume "sort xs = sort ys"
  then have "mset (sort xs) = mset (sort ys)" by simp
  then show "mset xs = mset ys" by simp
next
  assume "mset xs = mset ys"
  then have "mset (sort ys) = mset xs" by simp
  then show "sort xs = sort ys" by (rule properties_for_sort) simp
qed

lemma mset_eq_distinct_set:
  "distinct ys \<Longrightarrow> mset xs = mset ys \<longleftrightarrow> distinct xs \<and> set xs = set ys"
  by (metis mset_eq_imp_distinct_iff mset_eq_setD set_eq_iff_mset_eq_distinct)

text \<open>What merge returns, for every input.\<close>

lemma merge_closed:
  "merge columns ps name =
     (if ps = [] then Inl (AssertionError Merge_parents_nonempty)
      else if distinct ps \<and> set ps \<subseteq> set columns then
        Inr (takeWhile (\<lambda>c. c \<notin> set ps) columns
             @ name # fold remove1 ps (dropWhile (\<lambda>c. c \<notin> set ps) columns))
      else Inl (AssertionError Merge_parents_matched))"
proof (cases "\<exists>c\<in>set columns. c \<in> set ps")
  case True
  have "mset ps = mset (firsts (set ps) columns) \<longleftrightarrow> distinct ps \<and> set ps \<subseteq> set columns"
    by (auto simp: mset_eq_distinct_set [OF firsts_distinct] firsts_set)
  with True show ?thesis
    by (auto simp: merge_def merge_loop_fresh sort_eq_iff_mset fold_remove1_consume)
next
  case False
  then have "ps \<noteq> [] \<Longrightarrow> \<not> set ps \<subseteq> set columns"
    by (cases ps) auto
  with False show ?thesis
    by (auto simp: merge_def merge_loop_fresh sort_eq_iff_mset)
qed

lemma fold_remove1_append_left:
  "set ps \<inter> set xs = {} \<Longrightarrow> fold remove1 ps (xs @ ys) = xs @ fold remove1 ps ys"
  by (induction ps arbitrary: ys) (simp_all add: remove1_append)

lemma mset_fold_remove1: "mset (fold remove1 ps xs) = mset xs - mset ps"
  by (induction ps arbitrary: xs) simp_all

lemma length_fold_remove1:
  "distinct ps \<Longrightarrow> set ps \<subseteq> set xs \<Longrightarrow> length (fold remove1 ps xs) + length ps = length xs"
proof (induction ps arbitrary: xs)
  case Nil
  then show ?case by simp
next
  case (Cons p ps)
  have "set ps \<subseteq> set (remove1 p xs)"
  proof
    fix x assume x: "x \<in> set ps"
    then have "x \<noteq> p" "x \<in> set xs" using Cons.prems by auto
    then show "x \<in> set (remove1 p xs)" by (simp add: in_set_remove1)
  qed
  then have "length (fold remove1 ps (remove1 p xs)) + length ps = length (remove1 p xs)"
    using Cons.IH Cons.prems by simp
  moreover have "p \<in> set xs" using Cons.prems by simp
  then have "0 < length xs" by (cases xs) auto
  ultimately show ?case using \<open>p \<in> set xs\<close> by (simp add: length_remove1)
qed

lemma takeWhile_no_parent_length:
  assumes "ps \<noteq> []" "set ps \<subseteq> set columns"
  shows "length (takeWhile (\<lambda>c. c \<notin> set ps) columns) < length columns"
proof -
  obtain p where "p \<in> set ps" using assms(1) by (cases ps) auto
  then have "\<exists>c\<in>set columns. \<not> c \<notin> set ps" using assms(2) by auto
  then have "takeWhile (\<lambda>c. c \<notin> set ps) columns \<noteq> columns" by simp
  then have "length (takeWhile (\<lambda>c. c \<notin> set ps) columns) \<noteq> length columns"
    by (metis takeWhile_eq_take take_all order_refl)
  then show ?thesis
    using length_takeWhile_le [of "\<lambda>c. c \<notin> set ps" columns] by simp
qed

lemma count_list_distinct_member: "distinct xs \<Longrightarrow> x \<in> set xs \<Longrightarrow> count_list xs x = 1"
  by (induction xs) (auto simp: count_list_0_iff)

text \<open>
  Claim C1, amended. For every rail sequence \<open>columns\<close>, commit id \<open>name\<close> and non-empty list
  \<open>ps\<close> of distinct parent ids that all occur among the rails, \<open>merge columns ps name\<close>
  returns a sequence \<open>new\<close> such that, with \<open>i\<close> the position of the leftmost rail holding
  any parent id: \<open>new\<close> bears \<open>name\<close> at position \<open>i\<close>; \<open>new\<close> without that rail is \<open>columns\<close>
  without the leftmost occurrence of each parent id (so every other rail, later
  duplicates of consumed parents included, keeps its label and relative order); the
  length of \<open>new\<close> is \<open>len(columns) - len(ps) + 1\<close>; and \<open>name\<close> labels one rail more than
  the unconsumed rails of \<open>columns\<close> that already bore it, hence exactly one rail when
  \<open>name\<close> labels no rail of \<open>columns\<close>.
\<close>

theorem merge_consumes_leftmost_parents:
  assumes "ps \<noteq> []" and "distinct ps" and "set ps \<subseteq> set columns"
    and "i = length (takeWhile (\<lambda>c. c \<notin> set ps) columns)"
  shows "\<exists>new. merge columns ps name = Inr new
      \<and> i < length columns \<and> columns ! i \<in> set ps \<and> (\<forall>j<i. columns ! j \<notin> set ps)
      \<and> i < length new \<and> new ! i = name
      \<and> take i new @ drop (Suc i) new = fold remove1 ps columns
      \<and> int (length new) = int (length columns) - int (length ps) + 1
      \<and> count_list new name + count_list ps name = count_list columns name + 1
      \<and> (name \<notin> set columns \<longrightarrow> count_list new name = 1)"
proof -
  define tw where "tw = takeWhile (\<lambda>c. c \<notin> set ps) columns"
  define dw where "dw = dropWhile (\<lambda>c. c \<notin> set ps) columns"
  define new where "new = tw @ name # fold remove1 ps dw"
  have cols: "columns = tw @ dw" by (simp add: tw_def dw_def)
  have i: "i = length tw" by (simp add: assms(4) tw_def)
  have res: "merge columns ps name = Inr new"
    using assms(1-3) by (simp add: merge_closed new_def tw_def dw_def)
  have lt: "i < length columns"
    using takeWhile_no_parent_length [OF assms(1,3)] by (simp add: assms(4))
  have at: "columns ! i \<in> set ps"
    using lt nth_length_takeWhile [of "\<lambda>c. c \<notin> set ps" columns] by (simp add: assms(4))
  have before: "\<forall>j<i. columns ! j \<notin> set ps"
  proof (intro allI impI)
    fix j assume "j < i"
    then have "j < length (takeWhile (\<lambda>c. c \<notin> set ps) columns)" by (simp add: assms(4))
    then have "j < length tw" by (simp add: tw_def)
    then have "tw ! j \<in> set tw" by (rule nth_mem)
    moreover have "tw ! j = columns ! j"
      using \<open>j < length tw\<close> unfolding tw_def by (rule takeWhile_nth)
    ultimately show "columns ! j \<notin> set ps"
      using set_takeWhileD [of "tw ! j" "\<lambda>c. c \<notin> set ps" columns] by (simp add: tw_def)
  qed
  have disj: "set ps \<inter> set tw = {}"
    by (auto simp: tw_def dest: set_takeWhileD)
  have del: "take i new @ drop (Suc i) new = fold remove1 ps columns"
    by (simp add: new_def i cols fold_remove1_append_left [OF disj])
  have nth: "i < length new" "new ! i = name"
    by (simp_all add: new_def i)
  have ms: "mset new = mset (fold remove1 ps columns) + {#name#}"
    by (simp add: new_def cols fold_remove1_append_left [OF disj])
  have "length new = length (fold remove1 ps columns) + 1"
    using arg_cong [OF ms, of size] by simp
  then have len: "int (length new) = int (length columns) - int (length ps) + 1"
    using length_fold_remove1 [OF assms(2,3)] by simp
  have sub: "count_list ps name \<le> count_list columns name"
  proof (cases "name \<in> set ps")
    case True
    then have "count_list ps name = 1"
      using assms(2) by (simp add: count_list_distinct_member)
    moreover have "name \<in> set columns" using True assms(3) by auto
    then have "0 < count_list columns name" by (simp add: count_list_0_iff zero_less_iff_neq_zero)
    ultimately show ?thesis by simp
  next
    case False
    then show ?thesis by (simp add: count_list_0_iff)
  qed
  have "count (mset new) name = count (mset columns - mset ps) name + 1"
    by (simp add: ms mset_fold_remove1)
  then have cnt: "count_list new name + count_list ps name = count_list columns name + 1"
    using sub by (simp add: count_mset)
  have one: "count_list new name = 1" if "name \<notin> set columns"
  proof -
    have "count_list columns name = 0" using that by (simp add: count_list_0_iff)
    with cnt sub show ?thesis by simp
  qed
  show ?thesis
    using res lt at before nth del len cnt one by blast
qed

theorem merge_consumes_leftmost_parents_witness:
  "[2, 1 :: nat] \<noteq> [] \<and> distinct [2, 1 :: nat] \<and> set [2, 1 :: nat] \<subseteq> set [5, 1, 7, 2, 1, 2]
   \<and> (\<exists>new. merge [5, 1, 7, 2, 1, 2 :: nat] [2, 1] 9 = Inr new
          \<and> new ! 1 = 9
          \<and> take 1 new @ drop 2 new = [5, 7, 1, 2]
          \<and> length new = 5
          \<and> count_list new 9 = 1)"
proof -
  have h1: "[2, 1 :: nat] \<noteq> []" by simp
  have h2: "distinct [2, 1 :: nat]" by simp
  have h3: "set [2, 1 :: nat] \<subseteq> set [5, 1, 7, 2, 1, 2]" by simp
  have h4: "1 = length (takeWhile (\<lambda>c. c \<notin> set [2, 1 :: nat]) [5, 1, 7, 2, 1, 2])" by simp
  have h5: "(9 :: nat) \<notin> set [5, 1, 7, 2, 1, 2]" by simp
  from merge_consumes_leftmost_parents [OF h1 h2 h3 h4, of 9] h5
  obtain new where new: "merge [5, 1, 7, 2, 1, 2 :: nat] [2, 1] 9 = Inr new" "new ! 1 = 9"
      "take 1 new @ drop (Suc 1) new = fold remove1 [2, 1] [5, 1, 7, 2, 1, 2]"
      "int (length new) = int (length [5, 1, 7, 2, 1, 2 :: nat]) - int (length [2, 1 :: nat]) + 1"
      "count_list new 9 = 1"
    by blast
  have "take 1 new @ drop 2 new = [5, 7, 1, 2]" using new(3) by (simp add: numeral_2_eq_2)
  moreover have "length new = 5" using new(4) by simp
  ultimately show ?thesis using h1 h2 h3 new(1,2,5) by blast
qed

text \<open>
  Claim C1, as stated, says that exactly one rail of the result bears \<open>name\<close> for every
  rail sequence. merge keeps a rail that already bears \<open>name\<close> and writes \<open>name\<close> once
  more: on the rails \<open>n p\<close> with parent \<open>p\<close> the result \<open>n n\<close> bears \<open>n\<close> twice.
\<close>

theorem merge_name_rail_counterexample:
  "[''p''] \<noteq> [] \<and> distinct [''p''] \<and> set [''p''] \<subseteq> set [''n'', ''p'']
   \<and> merge [''n'', ''p''] [''p''] ''n'' = Inr [''n'', ''n'']
   \<and> count_list [''n'', ''n''] ''n'' \<noteq> 1"
  by (simp add: merge_closed)

text \<open>
  Claim C5. For every rail sequence and non-empty list of distinct parent ids, merge
  fails if and only if some parent id appears zero times among the rails, and the
  failure is the assertion that compares the sorted parents with the sorted merged
  parents (LayoutInconsistency); when every parent id appears at least once the call
  succeeds and returns a sequence.
\<close>

theorem merge_fails_iff_parent_missing:
  assumes "ps \<noteq> []" and "distinct ps"
  shows "(merge columns ps name = Inl (AssertionError Merge_parents_matched)
            \<longleftrightarrow> (\<exists>p\<in>set ps. p \<notin> set columns))
       \<and> ((\<exists>e. merge columns ps name = Inl e) \<longleftrightarrow> (\<exists>p\<in>set ps. p \<notin> set columns))
       \<and> ((\<exists>new. merge columns ps name = Inr new) \<longleftrightarrow> (\<forall>p\<in>set ps. p \<in> set columns))"
  using assms by (auto simp: merge_closed)

theorem merge_fails_iff_parent_missing_witness:
  "[2, 3 :: nat] \<noteq> [] \<and> distinct [2, 3 :: nat]
   \<and> merge [1, 2 :: nat] [2, 3] 9 = Inl (AssertionError Merge_parents_matched)
   \<and> (\<exists>new. merge [1, 2, 3 :: nat] [2, 3] 9 = Inr new)"
  using merge_fails_iff_parent_missing [of "[2, 3 :: nat]" "[1, 2]" 9]
    merge_fails_iff_parent_missing [of "[2, 3 :: nat]" "[1, 2, 3]" 9]
  by simp

text \<open>
  Claim C4, as stated, says that merge keeps the multiset of rail labels different from
  the commit's own id. A consumed parent is such a label and merge removes it: on the
  single rail \<open>p\<close> with parent \<open>p\<close> the result is the single rail \<open>n\<close>.
\<close>

theorem merge_loses_parent_label_counterexample:
  "merge [''p''] [''p''] ''n'' = Inr [''n'']
   \<and> mset (removeAll ''n'' [''p'']) \<noteq> mset (removeAll ''n'' [''n''])"
  by (simp add: merge_closed)

lemma merge_mset:
  assumes "merge columns ps name = Inr new"
  shows "mset new = (mset columns - mset ps) + {#name#}"
proof -
  have ok: "ps \<noteq> []" "distinct ps" "set ps \<subseteq> set columns"
    using assms by (auto simp: merge_closed split: if_splits)
  have new: "new = takeWhile (\<lambda>c. c \<notin> set ps) columns
                   @ name # fold remove1 ps (dropWhile (\<lambda>c. c \<notin> set ps) columns)"
    using assms ok by (simp add: merge_closed)
  have disj: "set ps \<inter> set (takeWhile (\<lambda>c. c \<notin> set ps) columns) = {}"
    by (auto dest: set_takeWhileD)
  have "mset new = mset (fold remove1 ps (takeWhile (\<lambda>c. c \<notin> set ps) columns
                                          @ dropWhile (\<lambda>c. c \<notin> set ps) columns)) + {#name#}"
    unfolding fold_remove1_append_left [OF disj] by (simp add: new)
  then show ?thesis by (simp add: mset_fold_remove1)
qed

text \<open>
  Claim C4, amended. After a successful merge the multiset of rail labels different from
  the commit's own id is the multiset before with one occurrence of each parent id
  removed, so the labels that are neither the commit's id nor a parent id are the same
  multiset before and after; across branch the multiset of rail labels different from
  the commit's own id is the same before and after.
\<close>

theorem foreign_rails_preserved:
  "(merge columns ps name = Inr new \<longrightarrow>
      filter_mset (\<lambda>c. c \<noteq> name) (mset new) = filter_mset (\<lambda>c. c \<noteq> name) (mset columns - mset ps)
    \<and> filter_mset (\<lambda>c. c \<noteq> name \<and> c \<notin> set ps) (mset new)
        = filter_mset (\<lambda>c. c \<noteq> name \<and> c \<notin> set ps) (mset columns))
   \<and> filter_mset (\<lambda>c. c \<noteq> name) (mset (branch columns children name))
        = filter_mset (\<lambda>c. c \<noteq> name) (mset columns)"
proof -
  have br: "filter_mset (\<lambda>c. c \<noteq> name) (mset (branch columns children name))
        = filter_mset (\<lambda>c. c \<noteq> name) (mset columns)"
    using arg_cong [OF branch_filter_foreign [of name columns children], of mset] by simp
  have mg: "filter_mset (\<lambda>c. c \<noteq> name) (mset new) = filter_mset (\<lambda>c. c \<noteq> name) (mset columns - mset ps)
    \<and> filter_mset (\<lambda>c. c \<noteq> name \<and> c \<notin> set ps) (mset new)
        = filter_mset (\<lambda>c. c \<noteq> name \<and> c \<notin> set ps) (mset columns)"
    if ok: "merge columns ps name = Inr new"
  proof -
    have ms: "mset new = (mset columns - mset ps) + {#name#}" by (rule merge_mset [OF ok])
    have "filter_mset (\<lambda>c. c \<noteq> name \<and> c \<notin> set ps) (mset columns - mset ps)
            = filter_mset (\<lambda>c. c \<noteq> name \<and> c \<notin> set ps) (mset columns)"
      by (rule multiset_eqI) (auto simp: count_mset count_list_0_iff)
    then show ?thesis by (simp add: ms)
  qed
  show ?thesis using br mg by blast
qed

theorem foreign_rails_preserved_witness:
  "merge [5, 1, 7, 2, 1 :: nat] [2, 1] 9 = Inr [5, 9, 7, 1]
   \<and> filter_mset (\<lambda>c. c \<noteq> 9 \<and> c \<notin> set [2, 1]) (mset [5, 9, 7, 1 :: nat]) = {#5, 7#}
   \<and> filter_mset (\<lambda>c. c \<noteq> 9 \<and> c \<notin> set [2, 1]) (mset [5, 1, 7, 2, 1 :: nat]) = {#5, 7#}"
  using foreign_rails_preserved [of "[5, 1, 7, 2, 1 :: nat]" "[2, 1]" 9 "[5, 9, 7, 1]" "[] :: nat list"]
  by (simp add: merge_closed)

section \<open>Crossover art for a merge\<close>

lemma list_index_first:
  "i < length xs \<Longrightarrow> xs ! i = x \<Longrightarrow> (\<forall>j<i. xs ! j \<noteq> x) \<Longrightarrow> list_index xs x = Inr i"
proof (induction xs arbitrary: i)
  case Nil
  then show ?case by simp
next
  case (Cons y ys)
  show ?case
  proof (cases i)
    case 0
    with Cons.prems show ?thesis by simp
  next
    case (Suc k)
    have "y \<noteq> x" using Cons.prems(3) Suc by auto
    moreover have "list_index ys x = Inr k"
    proof (rule Cons.IH)
      show "k < length ys" using Cons.prems(1) Suc by simp
      show "ys ! k = x" using Cons.prems(2) Suc by simp
      show "\<forall>j<k. ys ! j \<noteq> x" using Cons.prems(3) Suc by auto
    qed
    ultimately show ?thesis using Suc by simp
  qed
qed

lemma filter_single:
  "distinct xs \<Longrightarrow> x \<in> set xs \<Longrightarrow> P x \<Longrightarrow> (\<forall>y\<in>set xs. P y \<longrightarrow> y = x) \<Longrightarrow> filter P xs = [x]"
proof (induction xs)
  case Nil
  then show ?case by simp
next
  case (Cons a xs)
  have uniq: "\<And>y. y \<in> set xs \<Longrightarrow> P y \<Longrightarrow> y = x"
    using Cons.prems(4) by auto
  have dist: "distinct xs" "a \<notin> set xs"
    using Cons.prems(1) by simp_all
  have px: "P x" by (rule Cons.prems(3))
  have eq_case: "filter P (a # xs) = [x]" if ax: "a = x"
  proof -
    have "\<not> P y" if "y \<in> set xs" for y
    proof
      assume "P y"
      then have "y = a" using uniq [OF that] ax by simp
      then show False using that dist(2) by simp
    qed
    then have fe: "filter P xs = []" by (simp add: filter_empty_conv)
    have "filter P (x # xs) = [x]"
      by (simp only: filter.simps px if_True fe)
    then show ?thesis by (simp only: ax)
  qed
  have neq_case: "filter P (a # xs) = [x]" if nax: "a \<noteq> x"
  proof -
    have "x \<in> set xs" using Cons.prems(2) nax by auto
    then have "filter P xs = [x]"
      by (intro Cons.IH dist(1) px ballI impI uniq)
    moreover have "\<not> P a"
      using Cons.prems(4) nax by auto
    ultimately show ?thesis by simp
  qed
  show ?case using eq_case neq_case by blast
qed

lemma counter_sub_keys_single:
  assumes "count_list finish merged < count_list start merged"
    and "\<forall>k. count_list finish k < count_list start k \<longrightarrow> k = merged"
  shows "counter_sub_keys start finish = [merged]"
proof -
  have "count_list start merged \<noteq> 0" using assms(1) by simp
  then have mem: "merged \<in> set (remdups start)" by (simp add: count_list_0_iff)
  have "filter (\<lambda>k. count_list finish k < count_list start k) (remdups start) = [merged]"
  proof (rule filter_single)
    show "distinct (remdups start)" by simp
    show "merged \<in> set (remdups start)" by (rule mem)
    show "count_list finish merged < count_list start merged" by (rule assms(1))
    show "\<forall>y\<in>set (remdups start). count_list finish y < count_list start y \<longrightarrow> y = merged"
      using assms(2) by blast
  qed
  then show ?thesis by (simp only: counter_sub_keys_def)
qed

lemma rstrip_trimmed: "rstrip s = [] \<or> \<not> is_whitespace (last (rstrip s))"
proof (cases "dropWhile is_whitespace (rev s)")
  case Nil
  then show ?thesis by (simp add: rstrip_def)
next
  case (Cons c cs)
  then have "\<not> is_whitespace (hd (dropWhile is_whitespace (rev s)))"
    by (metis hd_dropWhile list.distinct(1))
  then show ?thesis using Cons by (simp add: rstrip_def last_rev)
qed

lemma length_ascii_crossover: "length (ascii_crossover n) = 4"
  by (simp add: ascii_crossover_def)

text \<open>
  Claim C3. For every pair of sequences \<open>start\<close>, \<open>finish\<close> with \<open>len(start) - 1 = len(finish)\<close>
  and exactly one label \<open>merged\<close> whose count decreases from \<open>start\<close> to \<open>finish\<close>, whose
  position \<open>dest\<close> in \<open>finish\<close> is its first position in \<open>start\<close> and which occurs next at
  the later position \<open>origin\<close> in \<open>start\<close>, \<open>ascii_merge start finish\<close> returns exactly four
  lines: the closing diagonal, the underscore bridge, the reopening diagonal and the
  continuation line of the crossover shape for the gap width \<open>origin - dest - 1\<close>, each
  padded on the left by \<open>dest\<close> straight rails and on the right by \<open>len(start) - origin - 1\<close>
  diagonal rails and then stripped of trailing whitespace.
\<close>

theorem ascii_merge_four_lines:
  assumes len: "int (length start) - 1 = int (length finish)"
    and dec: "count_list finish merged < count_list start merged"
    and uniq: "\<forall>k. count_list finish k < count_list start k \<longrightarrow> k = merged"
    and dest_finish: "dest < length finish" "finish ! dest = merged" "\<forall>j<dest. finish ! j \<noteq> merged"
    and dest_start: "start ! dest = merged" "\<forall>j<dest. start ! j \<noteq> merged"
    and origin: "dest < origin" "origin < length start" "start ! origin = merged"
      "\<forall>j. dest < j \<and> j < origin \<longrightarrow> start ! j \<noteq> merged"
    and gap: "gap = int origin - int dest - 1"
    and after: "after = int (length start) - int origin - 1"
  shows "\<exists>lines. ascii_merge start finish = Inr lines
       \<and> length lines = 4
       \<and> lines ! 0 = rstrip (py_mul ''| '' (int dest) @ ascii_crossover gap ! 0 @ py_mul ('' '' @ [backslash]) after)
       \<and> lines ! 1 = rstrip (py_mul ''| '' (int dest) @ ascii_crossover gap ! 1 @ py_mul '' /'' after)
       \<and> lines ! 2 = rstrip (py_mul ''| '' (int dest) @ ascii_crossover gap ! 2 @ py_mul ''/ '' after)
       \<and> lines ! 3 = rstrip (py_mul ''| '' (int dest) @ ascii_crossover gap ! 3 @ py_mul ''/ '' after)
       \<and> ascii_crossover gap =
           [''| '' @ py_mul ''| '' gap @ '' '' @ [backslash],
            ''| '' @ py_mul ''|_'' gap @ ''_/'',
            ''|/'' @ py_mul ''| '' gap @ ''  '',
            ''| '' @ py_mul ''| '' gap @ '' '']
       \<and> (\<forall>l\<in>set lines. l = [] \<or> \<not> is_whitespace (last l))"
proof -
  have keys: "counter_sub_keys start finish = [merged]"
    by (rule counter_sub_keys_single [OF dec uniq])
  have i1: "list_index finish merged = Inr dest"
    by (rule list_index_first [OF dest_finish])
  have "dest < length start" using origin(1,2) by simp
  then have i2: "list_index start merged = Inr dest"
    by (rule list_index_first [OF _ dest_start])
  have i3: "list_index (drop (dest + 1) start) merged = Inr (origin - dest - 1)"
  proof (rule list_index_first)
    show "origin - dest - 1 < length (drop (dest + 1) start)"
      using origin(1,2) by simp
    show "drop (dest + 1) start ! (origin - dest - 1) = merged"
      using origin(1,2,3) by simp
    show "\<forall>j<origin - dest - 1. drop (dest + 1) start ! j \<noteq> merged"
    proof (intro allI impI)
      fix j assume j: "j < origin - dest - 1"
      then have "dest < dest + 1 + j \<and> dest + 1 + j < origin" by simp
      then have "start ! (dest + 1 + j) \<noteq> merged" using origin(4) by blast
      moreover have "dest + 1 + j \<le> length start" using j origin(2) by simp
      ultimately show "drop (dest + 1) start ! j \<noteq> merged" by simp
    qed
  qed
  define j where "j = origin - dest - 1"
  have i3': "list_index (drop (Suc dest) start) merged = Inr j"
    using i3 by (simp add: j_def)
  have gj: "gap = int j"
    using origin(1) by (simp add: gap j_def)
  have aj: "after = int (length start) - (int dest + int j + 1) - 1"
    using origin(1) by (simp add: after j_def)
  define lines where "lines = map rstrip
      [py_mul ''| '' (int dest) @ ascii_crossover gap ! 0 @ py_mul ('' '' @ [backslash]) after,
       py_mul ''| '' (int dest) @ ascii_crossover gap ! 1 @ py_mul '' /'' after,
       py_mul ''| '' (int dest) @ ascii_crossover gap ! 2 @ py_mul ''/ '' after,
       py_mul ''| '' (int dest) @ ascii_crossover gap ! 3 @ py_mul ''/ '' after]"
  have pre: "\<not> int (length start) - 1 \<noteq> int (length finish)" using len by simp
  have res: "ascii_merge start finish = Inr lines"
    unfolding ascii_merge_def lines_def gj aj
    by (simp only: pre if_False keys list.case i1 i2 sum.case simp_thms i3' Let_def
          add_diff_cancel_left' Suc_eq_plus1 [symmetric])
       simp
  have trimmed: "\<forall>l\<in>set lines. l = [] \<or> \<not> is_whitespace (last l)"
    by (simp add: lines_def rstrip_trimmed)
  have l4: "length lines = 4" by (simp add: lines_def)
  have l0: "lines ! 0 = rstrip (py_mul ''| '' (int dest) @ ascii_crossover gap ! 0 @ py_mul ('' '' @ [backslash]) after)"
    by (simp add: lines_def)
  have l1: "lines ! 1 = rstrip (py_mul ''| '' (int dest) @ ascii_crossover gap ! 1 @ py_mul '' /'' after)"
    by (simp add: lines_def)
  have l2: "lines ! 2 = rstrip (py_mul ''| '' (int dest) @ ascii_crossover gap ! 2 @ py_mul ''/ '' after)"
    by (simp add: lines_def numeral_2_eq_2)
  have l3: "lines ! 3 = rstrip (py_mul ''| '' (int dest) @ ascii_crossover gap ! 3 @ py_mul ''/ '' after)"
    by (simp add: lines_def numeral_3_eq_3)
  have cross: "ascii_crossover gap =
           [''| '' @ py_mul ''| '' gap @ '' '' @ [backslash],
            ''| '' @ py_mul ''|_'' gap @ ''_/'',
            ''|/'' @ py_mul ''| '' gap @ ''  '',
            ''| '' @ py_mul ''| '' gap @ '' '']"
    by (simp add: ascii_crossover_def)
  show ?thesis
    by (intro exI [of _ lines] conjI) (fact res l4 l0 l1 l2 l3 cross trimmed)+
qed

theorem ascii_merge_four_lines_witness:
  "\<exists>lines. ascii_merge [1, 2, 1 :: nat] [1, 2] = Inr lines
      \<and> length lines = 4
      \<and> lines ! 0 = ''| |  '' @ [backslash]
      \<and> lines ! 1 = ''| |__/''
      \<and> lines ! 2 = ''|/|''
      \<and> lines ! 3 = ''| |''"
proof -
  have len: "int (length [1, 2, 1 :: nat]) - 1 = int (length [1, 2 :: nat])" by simp
  have dec: "count_list [1, 2 :: nat] 1 < count_list [1, 2, 1 :: nat] 1" by simp
  have uniq: "\<forall>k. count_list [1, 2 :: nat] k < count_list [1, 2, 1 :: nat] k \<longrightarrow> k = 1"
    by (auto split: if_splits)
  have df: "0 < length [1, 2 :: nat]" "[1, 2 :: nat] ! 0 = 1" "\<forall>j<0. [1, 2 :: nat] ! j \<noteq> 1"
    by simp_all
  have ds: "[1, 2, 1 :: nat] ! 0 = 1" "\<forall>j<0. [1, 2, 1 :: nat] ! j \<noteq> 1"
    by simp_all
  have o1: "(0::nat) < 2" "2 < length [1, 2, 1 :: nat]" "[1, 2, 1 :: nat] ! 2 = 1"
    by simp_all
  have o2: "\<forall>j. 0 < j \<and> j < 2 \<longrightarrow> [1, 2, 1 :: nat] ! j \<noteq> 1"
  proof (intro allI impI)
    fix j :: nat assume "0 < j \<and> j < 2"
    then have "j = 1" by arith
    then show "[1, 2, 1 :: nat] ! j \<noteq> 1" by simp
  qed
  have g: "(1::int) = int 2 - int 0 - 1" by simp
  have a: "(0::int) = int (length [1, 2, 1 :: nat]) - int 2 - 1" by simp
  from ascii_merge_four_lines [OF len dec uniq df ds o1 o2 g a]
  obtain lines where lines: "ascii_merge [1, 2, 1 :: nat] [1, 2] = Inr lines" "length lines = 4"
    "lines ! 0 = rstrip (py_mul ''| '' (int 0) @ ascii_crossover 1 ! 0 @ py_mul ('' '' @ [backslash]) 0)"
    "lines ! 1 = rstrip (py_mul ''| '' (int 0) @ ascii_crossover 1 ! 1 @ py_mul '' /'' 0)"
    "lines ! 2 = rstrip (py_mul ''| '' (int 0) @ ascii_crossover 1 ! 2 @ py_mul ''/ '' 0)"
    "lines ! 3 = rstrip (py_mul ''| '' (int 0) @ ascii_crossover 1 ! 3 @ py_mul ''/ '' 0)"
    by blast
  have l0: "lines ! 0 = ''| |  '' @ [backslash]"
    unfolding lines(3) by (simp add: py_mul_def ascii_crossover_def rstrip_def is_whitespace_def)
  have l1: "lines ! 1 = ''| |__/''"
    unfolding lines(4) by (simp add: py_mul_def ascii_crossover_def rstrip_def is_whitespace_def)
  have l2: "lines ! 2 = ''|/|''"
    unfolding lines(5) by (simp add: py_mul_def ascii_crossover_def rstrip_def is_whitespace_def)
  have l3: "lines ! 3 = ''| |''"
    unfolding lines(6) by (simp add: py_mul_def ascii_crossover_def rstrip_def is_whitespace_def)
  show ?thesis
    by (intro exI [of _ lines] conjI) (fact lines(1,2) l0 l1 l2 l3)+
qed

lemma parents_two_example:
  "parents ''M'' [(''P1'', [''M'']), (''P2'', [''M''])] = [''P1'', ''P2'']"
  by (simp add: parents_def reversed_def)

lemma ascii_merge_adjacent:
  "ascii_merge [m, m] [m] = Inr [''|  '' @ [backslash], ''| _/'', ''|/'', ''|'']"
  by (simp add: ascii_merge_def counter_sub_keys_def ascii_crossover_def py_mul_def
        rstrip_def is_whitespace_def Let_def)

text \<open>
  Claim C9, as stated, says that a two-parent merge of adjacent rails (no padding, gap
  width 0) emits connector art of at most two lines. ascii_merge has no special case for
  a merge without crossing (the source marks it as a TODO): the row of \<open>M\<close> with the
  adjacent parent rails \<open>P1 P2\<close> is preceded by four connector lines.
\<close>

theorem adjacent_merge_counterexample:
  "print_row ''M'' [(''P1'', [''M'']), (''P2'', [''M''])] (Some [''P1'', ''P2'']) None []
     = ([''|  '' @ [backslash], ''| _/'', ''|/'', ''|''] @ [''o   M''], Inr [])
   \<and> \<not> length [''|  '' @ [backslash], ''| _/'', ''|/'', ''|''] \<le> (2::nat)"
  by (simp add: print_row_def parents_two_example merge_closed ascii_merge_adjacent
        format_line_def branch_def children_get_def py_mul_def)

text \<open>
  Claim C9, amended. For a two-parent merge whose parent rails are adjacent (no rail on
  the left, none on the right, gap width 0) ascii_merge returns the four lines of the
  crossover shape for gap width 0, stripped of trailing whitespace.
\<close>

theorem adjacent_merge_four_lines:
  "ascii_merge [m, m] [m] = Inr [''|  '' @ [backslash], ''| _/'', ''|/'', ''|'']
   \<and> ascii_crossover 0 = [''|  '' @ [backslash], ''| _/'', ''|/  '', ''|  '']"
  by (simp add: ascii_merge_def counter_sub_keys_def ascii_crossover_def py_mul_def
        rstrip_def is_whitespace_def Let_def)

section \<open>Rows and the render loop\<close>





text \<open>
  A commit rendered on given rails goes through merge resolution, row formatting and
  branch expansion: a successful print_row returns the rails of \<open>merge_format_expand\<close>
  and prints its row between the connector art of the merge and that of the expansion.
\<close>

lemma print_row_later:
  assumes "print_row commit children (Some columns) msg out = (out', Inr cols')"
  shows "\<exists>row art1 art2. merge_format_expand commit children columns msg = Inr (row, cols')
            \<and> out' = out @ art1 @ [row] @ art2"
proof -
  define res where "res = (if length (parents commit children) = 0 then Inr (columns @ [commit])
                           else merge columns (parents commit children) commit)"
  define art_of where "art_of = (\<lambda>new. if length (parents commit children) > 1 then
                        ascii_merge (snd (pre_merge_loop (parents commit children) columns ([], [])))
                          (map (\<lambda>c. if c \<in> set columns then c else ''to_merge'') new)
                      else Inr [])"
  define newer_of where "newer_of = (\<lambda>new. branch new (children_get children commit) commit)"
  define tail where "tail = (\<lambda>new art.
           if length (children_get children commit) > 1 then
             (case ascii_branch new (newer_of new) of
                Inl e \<Rightarrow> (out @ art @ [format_line commit new msg], Inl e)
              | Inr art2 \<Rightarrow> ((out @ art @ [format_line commit new msg]) @ art2, Inr (newer_of new)))
           else (out @ art @ [format_line commit new msg], Inr (newer_of new)))"
  have pr: "print_row commit children (Some columns) msg out =
          (case res of
             Inl e \<Rightarrow> (out, Inl e)
           | Inr new \<Rightarrow> (case art_of new of Inl e \<Rightarrow> (out, Inl e) | Inr art \<Rightarrow> tail new art))"
    unfolding print_row_def res_def art_of_def tail_def newer_of_def Let_def option.case
    by (rule refl)
  obtain new where new: "res = Inr new"
    using assms unfolding pr by (cases res) simp_all
  obtain art1 where art1: "art_of new = Inr art1"
    using assms unfolding pr new by (cases "art_of new") simp_all
  have t: "tail new art1 = (out', Inr cols')"
    using assms unfolding pr new by (simp add: art1)
  have mfe: "merge_format_expand commit children columns msg
               = Inr (format_line commit new msg, newer_of new)"
    using new by (simp add: merge_format_expand_def merge_resolution_def res_def newer_of_def)
  show ?thesis
  proof (cases "length (children_get children commit) > 1")
    case True
    then obtain art2 where "ascii_branch new (newer_of new) = Inr art2"
      using t by (cases "ascii_branch new (newer_of new)") (simp_all add: tail_def)
    then have "out' = out @ art1 @ [format_line commit new msg] @ art2" "cols' = newer_of new"
      using t True by (simp_all add: tail_def)
    then show ?thesis using mfe by blast
  next
    case False
    then have "out' = out @ art1 @ [format_line commit new msg] @ []" "cols' = newer_of new"
      using t by (simp_all add: tail_def)
    then show ?thesis using mfe by blast
  qed
qed

lemma parents_root_two_children:
  "parents ''A'' [(''A'', [''B'', ''C''])] = []"
  "parents ''B'' [(''A'', [''B'', ''C''])] = [''A'']"
  "parents ''C'' [(''A'', [''B'', ''C''])] = [''A'']"
  by (simp_all add: parents_def reversed_def)

text \<open>
  Claim C7. The rail state is seeded by the first commit and is then changed once per
  commit by merge-then-format-then-expand, the first commit included. The code runs the
  three steps for every commit that is given rails (\<open>print_row_later\<close>), but for the first
  commit print_row prints the row and returns the single rail without calling branch.
  On the history of a root \<open>A\<close> with the two children \<open>B\<close> and \<open>C\<close> the first call
  leaves one rail where the transition gives two; \<open>B\<close> consumes it, print_lines prints
  two rows and stops at \<open>C\<close> in the assertion of merge, whereas the transition applied
  to every commit from the empty rail state renders the three rows.
\<close>

theorem first_commit_not_expanded:
  "print_row ''A'' [(''A'', [''B'', ''C''])] None None [] = ([''o   A''], Inr [''A''])
   \<and> merge_format_expand ''A'' [(''A'', [''B'', ''C''])] [] None = Inr (''o   A'', [''A'', ''A''])
   \<and> print_lines [''A'', ''B'', ''C''] [(''A'', [''B'', ''C''])] Map.empty []
       = ([''o   A'', ''o   B''], Inl (AssertionError Merge_parents_matched))
   \<and> spec_render [(''A'', [''B'', ''C''])] Map.empty [] [''A'', ''B'', ''C'']
       = Inr ([''o   A'', ''o |   B'', ''o   C''], [])"
proof -
  have first: "print_row ''A'' [(''A'', [''B'', ''C''])] None None [] = ([''o   A''], Inr [''A''])"
    by (simp add: print_row_def format_line_def)
  have rowB: "print_row ''B'' [(''A'', [''B'', ''C''])] (Some [''A'']) None [''o   A'']
                = ([''o   A'', ''o   B''], Inr [])"
    by (simp add: print_row_def parents_root_two_children merge_closed format_line_def
          branch_def children_get_def py_mul_def)
  have rowC: "print_row ''C'' [(''A'', [''B'', ''C''])] (Some []) None [''o   A'', ''o   B'']
                = ([''o   A'', ''o   B''], Inl (AssertionError Merge_parents_matched))"
    by (simp add: print_row_def parents_root_two_children merge_closed)
  have lines: "print_lines [''A'', ''B'', ''C''] [(''A'', [''B'', ''C''])] Map.empty []
       = ([''o   A'', ''o   B''], Inl (AssertionError Merge_parents_matched))"
    by (simp add: print_lines_def first rowB rowC)
  have tA: "merge_format_expand ''A'' [(''A'', [''B'', ''C''])] [] None = Inr (''o   A'', [''A'', ''A''])"
    by (simp add: merge_format_expand_def merge_resolution_def parents_root_two_children
          format_line_def branch_def children_get_def py_mul_def numeral_2_eq_2)
  have tB: "merge_format_expand ''B'' [(''A'', [''B'', ''C''])] [''A'', ''A''] None = Inr (''o |   B'', [''A''])"
    by (simp add: merge_format_expand_def merge_resolution_def parents_root_two_children
          merge_closed format_line_def branch_def children_get_def py_mul_def)
  have tC: "merge_format_expand ''C'' [(''A'', [''B'', ''C''])] [''A''] None = Inr (''o   C'', [])"
    by (simp add: merge_format_expand_def merge_resolution_def parents_root_two_children
          merge_closed format_line_def branch_def children_get_def py_mul_def)
  have spec: "spec_render [(''A'', [''B'', ''C''])] Map.empty [] [''A'', ''B'', ''C'']
       = Inr ([''o   A'', ''o |   B'', ''o   C''], [])"
    by (simp add: tA tB tC)
  show ?thesis using first tA lines spec by simp
qed



end
